theory Spec2Isabelle
  imports Main
begin

section \<open>The stream-readiness wait of the streaming-deployment notebook\<close>

text \<open>
  The notebook \<^verbatim>\<open>Reference/03-Streaming-Deployment.py\<close> defines one utility of its own:
  \<^verbatim>\<open>
  def until_stream_is_ready(name, progressions=3):
      queries = list(filter(lambda query: query.name == name, spark.streams.active))
      while (len(queries) == 0 or len(queries[0].recentProgress) < progressions):
          time.sleep(5)
          queries = list(filter(lambda query: query.name == name, spark.streams.active))
      print(f"The stream {name} is active and ready.")
  \<close>
  The streaming engine is external. The function reads two attributes of a query handle,
  \<^verbatim>\<open>name\<close> and \<^verbatim>\<open>recentProgress\<close>, and of the latter only the length; the content of
  a progress report stays a type parameter.
\<close>

subsection \<open>Data\<close>

record 'p query =
  name :: string
  recentProgress :: "'p list"

text \<open>
  What the function does to the outside world, in the order it does it: a read of
  \<^verbatim>\<open>spark.streams.active\<close>, a \<^verbatim>\<open>time.sleep\<close> of some seconds, a printed line.
\<close>

datatype event = Poll | Sleep nat | Print string

text \<open>
  The world threaded through the function: how many times the active-query set has been
  read so far, and the events so far, oldest first.
\<close>

record world =
  polls :: nat
  trace :: "event list"

text \<open>
  The engine's side: \<open>active i\<close> is the list that the \<open>i\<close>-th read of
  \<^verbatim>\<open>spark.streams.active\<close> yields, in the order the engine enumerates it.
\<close>

type_synonym 'p streams = "nat \<Rightarrow> 'p query list"

subsection \<open>Effects\<close>

definition sleep :: "nat \<Rightarrow> world \<Rightarrow> world" where
  "sleep secs w = w\<lparr>trace := trace w @ [Sleep secs]\<rparr>"

definition print_line :: "string \<Rightarrow> world \<Rightarrow> world" where
  "print_line s w = w\<lparr>trace := trace w @ [Print s]\<rparr>"

text \<open>\<^verbatim>\<open>list(filter(lambda query: query.name == name, spark.streams.active))\<close>: the value.\<close>

definition active_queries :: "'p streams \<Rightarrow> string \<Rightarrow> world \<Rightarrow> 'p query list" where
  "active_queries active nm w = filter (\<lambda>query. name query = nm) (active (polls w))"

text \<open>The same expression: the world after the read.\<close>

definition polled :: "world \<Rightarrow> world" where
  "polled w = w\<lparr>polls := Suc (polls w), trace := trace w @ [Poll]\<rparr>"

subsection \<open>The function\<close>

text \<open>
  The loop test \<^verbatim>\<open>len(queries) == 0 or len(queries[0].recentProgress) < progressions\<close>.
  Python's \<^verbatim>\<open>or\<close> does not evaluate \<^verbatim>\<open>queries[0]\<close> on the empty list.
\<close>

definition loop_cond :: "'p query list \<Rightarrow> int \<Rightarrow> bool" where
  "loop_cond queries progressions =
     (case queries of
        [] \<Rightarrow> True
      | q # _ \<Rightarrow> int (length (recentProgress q)) < progressions)"

text \<open>
  The \<^verbatim>\<open>while\<close> loop, entered with the world after the read that gave \<open>queries\<close>.
  Nothing bounds the number of iterations, so the result is an option: \<open>None\<close> is the
  loop that never exits.
\<close>

partial_function (option) wait_loop ::
  "'p streams \<Rightarrow> string \<Rightarrow> int \<Rightarrow> world \<Rightarrow> 'p query list \<Rightarrow> world option" where
  "wait_loop active nm progressions w queries =
     (if loop_cond queries progressions then
        wait_loop active nm progressions (polled (sleep 5 w))
          (active_queries active nm (sleep 5 w))
      else Some w)"

text \<open>The default of the parameter \<^verbatim>\<open>progressions=3\<close>; \<open>None\<close> is the omitted argument.\<close>

definition progressions_arg :: "int option \<Rightarrow> int" where
  "progressions_arg p = (case p of None \<Rightarrow> 3 | Some v \<Rightarrow> v)"

definition ready_message :: "string \<Rightarrow> string" where
  "ready_message nm = ''The stream '' @ nm @ '' is active and ready.''"

text \<open>
  The function has no \<^verbatim>\<open>return\<close> statement and raises nothing of its own: its result is
  the world it leaves, when it returns at all.
\<close>

definition until_stream_is_ready ::
  "'p streams \<Rightarrow> string \<Rightarrow> int option \<Rightarrow> world \<Rightarrow> world option" where
  "until_stream_is_ready active nm p w =
     map_option (print_line (ready_message nm))
       (wait_loop active nm (progressions_arg p) (polled w) (active_queries active nm w))"

subsection \<open>The same loop, watched for a bounded number of sleeps\<close>

text \<open>
  \<open>None\<close> says that a call never returns, but not what it does meanwhile. The bounded run
  follows the same loop for at most \<open>n\<close> sleeps and reports either the world in which the
  loop exited, or the world reached when the budget is used up and the loop is still
  waiting.
\<close>

datatype outcome = Returned world | Pending world

primrec wait_loop_within ::
  "nat \<Rightarrow> 'p streams \<Rightarrow> string \<Rightarrow> int \<Rightarrow> world \<Rightarrow> 'p query list \<Rightarrow> outcome" where
  "wait_loop_within 0 active nm progressions w queries =
     (if loop_cond queries progressions then Pending w else Returned w)"
| "wait_loop_within (Suc n) active nm progressions w queries =
     (if loop_cond queries progressions then
        wait_loop_within n active nm progressions (polled (sleep 5 w))
          (active_queries active nm (sleep 5 w))
      else Returned w)"

definition until_stream_is_ready_within ::
  "nat \<Rightarrow> 'p streams \<Rightarrow> string \<Rightarrow> int option \<Rightarrow> world \<Rightarrow> outcome" where
  "until_stream_is_ready_within n active nm p w =
     (case wait_loop_within n active nm (progressions_arg p) (polled w)
             (active_queries active nm w) of
        Pending w' \<Rightarrow> Pending w'
      | Returned w' \<Rightarrow> Returned (print_line (ready_message nm) w'))"

subsection \<open>Vocabulary of the statements\<close>

text \<open>
  The first job of the given name in a snapshot, in enumeration order: the element
  \<^verbatim>\<open>queries[0]\<close> of the filtered list, when there is one.
\<close>

definition first_match :: "string \<Rightarrow> 'p query list \<Rightarrow> 'p query option" where
  "first_match nm snapshot = find (\<lambda>query. name query = nm) snapshot"

text \<open>A snapshot is ready when its first match has at least the threshold of reports.\<close>

definition ready :: "string \<Rightarrow> int \<Rightarrow> 'p query list \<Rightarrow> bool" where
  "ready nm progressions snapshot =
     (case first_match nm snapshot of
        None \<Rightarrow> False
      | Some q \<Rightarrow> progressions \<le> int (length (recentProgress q)))"

text \<open>
  The world of a call started in \<open>w\<close> that has read the active set \<open>k + 1\<close> times and
  slept between the reads, and the world in which it returned after that.
\<close>

definition waiting :: "nat \<Rightarrow> world \<Rightarrow> world" where
  "waiting k w =
     \<lparr>polls = polls w + Suc k,
      trace = trace w @ Poll # concat (replicate k [Sleep 5, Poll])\<rparr>"

definition returned :: "string \<Rightarrow> nat \<Rightarrow> world \<Rightarrow> world" where
  "returned nm k w =
     \<lparr>polls = polls w + Suc k,
      trace = trace w @ Poll # concat (replicate k [Sleep 5, Poll]) @
              [Print (''The stream '' @ nm @ '' is active and ready.'')]\<rparr>"

definition fresh :: world where
  "fresh = \<lparr>polls = 0, trace = []\<rparr>"

text \<open>The lines a trace prints, in order.\<close>

fun printed :: "event list \<Rightarrow> string list" where
  "printed [] = []"
| "printed (Print s # es) = s # printed es"
| "printed (e # es) = printed es"

subsection \<open>Engines to run the function against\<close>

text \<open>
  Each is a sequence of snapshots of the active set; a progress report carries nothing.
  \<open>job_a\<close>: one job whose log has 0, 1, 2, 3 reports at the reads 0 to 3 and stays at 3.
\<close>

definition job_a :: "unit streams" where
  "job_a i = [\<lparr>name = ''job-A'', recentProgress = replicate (min i 3) ()\<rparr>]"

text \<open>Two jobs of one name; the first never reports, the second has three reports.\<close>

definition stalled_first :: "unit streams" where
  "stalled_first i =
     [\<lparr>name = ''job-A'', recentProgress = []\<rparr>,
      \<lparr>name = ''job-A'', recentProgress = [(), (), ()]\<rparr>]"

text \<open>Two jobs of one name; the first has \<open>i\<close> reports at read \<open>i\<close>, the second always five.\<close>

definition two_named :: "unit streams" where
  "two_named i =
     [\<lparr>name = ''job-A'', recentProgress = replicate i ()\<rparr>,
      \<lparr>name = ''job-A'', recentProgress = replicate 5 ()\<rparr>]"

text \<open>Only a job of another name, however far it progresses.\<close>

definition other_only :: "unit streams" where
  "other_only i = [\<lparr>name = ''other'', recentProgress = replicate i ()\<rparr>]"

text \<open>The notebook's stream, with four reports from the first read on.\<close>

definition warmed_up :: "unit streams" where
  "warmed_up i = [\<lparr>name = ''lesson03_stream'', recentProgress = replicate 4 ()\<rparr>]"

text \<open>The notebook's stream, with \<open>i\<close> reports at read \<open>i\<close>, listed after another job.\<close>

definition lesson03 :: "unit streams" where
  "lesson03 i =
     [\<lparr>name = ''other'', recentProgress = replicate 9 ()\<rparr>,
      \<lparr>name = ''lesson03_stream'', recentProgress = replicate i ()\<rparr>]"

text \<open>A log that shrinks: five reports at read 0, one at read 1, three from read 2 on.\<close>

definition shrinking :: "unit streams" where
  "shrinking i =
     [\<lparr>name = ''job-A'',
       recentProgress = replicate (if i = 0 then 5 else if i = 1 then 1 else 3) ()\<rparr>]"

text \<open>A log that shrinks below the threshold 3 throughout: 2, 1, then 3.\<close>

definition dipping :: "unit streams" where
  "dipping i =
     [\<lparr>name = ''job-A'',
       recentProgress = replicate (if i = 0 then 2 else if i = 1 then 1 else 3) ()\<rparr>]"

text \<open>The job is absent at the reads 0 and 1 and present, without any report, from read 2.\<close>

definition late_start :: "unit streams" where
  "late_start i =
     (if i < 2 then [\<lparr>name = ''other'', recentProgress = [()]\<rparr>]
      else [\<lparr>name = ''other'', recentProgress = [()]\<rparr>,
            \<lparr>name = ''job-A'', recentProgress = []\<rparr>])"

section \<open>The loop and the snapshots\<close>

lemma loop_cond_filter:
  "loop_cond (filter (\<lambda>query. name query = nm) snapshot) th = (\<not> ready nm th snapshot)"
  by (induction snapshot) (auto simp: loop_cond_def ready_def first_match_def)

lemma loop_cond_active:
  "loop_cond (active_queries active nm w) th = (\<not> ready nm th (active (polls w)))"
  by (simp add: active_queries_def loop_cond_filter)

lemma concat_replicate_snoc: "concat (replicate k xs) @ xs = concat (replicate (Suc k) xs)"
  by (induction k) simp_all

lemma waiting_0: "polled w = waiting 0 w"
  by (simp add: polled_def waiting_def)

lemma waiting_Suc: "polled (sleep 5 (waiting k w)) = waiting (Suc k) w"
  using concat_replicate_snoc [of k "[Sleep 5, Poll]"]
  by (simp add: polled_def sleep_def waiting_def del: replicate_Suc)

lemma polls_waiting: "polls (waiting k w) = polls w + Suc k"
  by (simp add: waiting_def)

lemma queries_after_sleep:
  "active_queries active nm (sleep d (waiting k w)) =
     filter (\<lambda>query. name query = nm) (active (polls w + Suc k))"
  by (simp add: active_queries_def sleep_def waiting_def)

lemma returned_print: "print_line (ready_message nm) (waiting k w) = returned nm k w"
  by (simp add: print_line_def ready_message_def waiting_def returned_def)

text \<open>The loop at its head after \<open>k\<close> retries holds the queries of read \<open>polls w + k\<close>.\<close>

lemma wait_loop_step:
  assumes "\<not> ready nm th (active (polls w + k))"
  shows "wait_loop active nm th (waiting k w) (filter (\<lambda>query. name query = nm) (active (polls w + k)))
       = wait_loop active nm th (waiting (Suc k) w) (filter (\<lambda>query. name query = nm) (active (polls w + Suc k)))"
  using assms
  by (subst wait_loop.simps)
     (simp add: loop_cond_filter waiting_Suc queries_after_sleep)

lemma wait_loop_exit:
  assumes "ready nm th (active (polls w + k))"
  shows "wait_loop active nm th (waiting k w) (filter (\<lambda>query. name query = nm) (active (polls w + k)))
       = Some (waiting k w)"
  using assms by (subst wait_loop.simps) (simp add: loop_cond_filter)

lemma wait_loop_skip:
  assumes "\<forall>j<k. \<not> ready nm th (active (polls w + j))"
  shows "wait_loop active nm th (waiting 0 w) (filter (\<lambda>query. name query = nm) (active (polls w)))
       = wait_loop active nm th (waiting k w) (filter (\<lambda>query. name query = nm) (active (polls w + k)))"
  using assms
proof (induction k)
  case 0
  then show ?case by simp
next
  case (Suc k)
  then show ?case using wait_loop_step [of nm th active w k] by simp
qed

lemma wait_loop_Some_ready:
  fixes active :: "'p streams"
  assumes "wait_loop active nm th w0 qs = Some w'"
  shows "0 < polls w0 \<and> qs = filter (\<lambda>query. name query = nm) (active (polls w0 - 1))
           \<longrightarrow> (\<exists>j. ready nm th (active (polls w0 - 1 + j)))"
proof (rule wait_loop.raw_induct [where P = "\<lambda>(a :: 'p streams) n t v (q :: 'p query list) r.
    0 < polls v \<and> q = filter (\<lambda>query. name query = n) (a (polls v - 1))
           \<longrightarrow> (\<exists>j. ready n t (a (polls v - 1 + j)))", OF _ assms])
  fix wl :: "'p streams \<Rightarrow> string \<Rightarrow> int \<Rightarrow> world \<Rightarrow> 'p query list \<Rightarrow> world option"
  fix a :: "'p streams" and n t v and q :: "'p query list" and r
  assume IH: "\<And>a n t v q r. wl a n t v q = Some r \<Longrightarrow>
     0 < polls v \<and> q = filter (\<lambda>query. name query = n) (a (polls v - 1))
           \<longrightarrow> (\<exists>j. ready n t (a (polls v - 1 + j)))"
    and step: "(if loop_cond q t
          then wl a n t (polled (sleep 5 v)) (active_queries a n (sleep 5 v))
          else Some v) = Some r"
  show "0 < polls v \<and> q = filter (\<lambda>query. name query = n) (a (polls v - 1))
           \<longrightarrow> (\<exists>j. ready n t (a (polls v - 1 + j)))"
  proof (intro impI, elim conjE)
    assume pos: "0 < polls v"
      and q: "q = filter (\<lambda>query. name query = n) (a (polls v - 1))"
    show "\<exists>j. ready n t (a (polls v - 1 + j))"
    proof (cases "ready n t (a (polls v - 1))")
      case True
      then show ?thesis by (intro exI [of _ 0]) simp
    next
      case False
      with step q have "wl a n t (polled (sleep 5 v))
          (active_queries a n (sleep 5 v)) = Some r"
        by (simp add: loop_cond_filter)
      from IH [OF this] have "\<exists>j. ready n t (a (polls v + j))"
        by (simp add: polled_def sleep_def active_queries_def)
      then obtain j where "ready n t (a (polls v - 1 + Suc j))"
        using pos by auto
      then show ?thesis by blast
    qed
  qed
qed

lemma wait_loop_diverges:
  assumes "\<forall>j. \<not> ready nm th (active (polls w + j))"
  shows "wait_loop active nm th (polled w) (active_queries active nm w) = None"
proof (cases "wait_loop active nm th (polled w) (active_queries active nm w)")
  case None
  then show ?thesis .
next
  case (Some w')
  from wait_loop_Some_ready [OF this] have "\<exists>j. ready nm th (active (polls w + j))"
    by (simp add: polled_def active_queries_def)
  with assms show ?thesis by simp
qed

lemma wait_loop_returns:
  assumes "ready nm th (active (polls w + k))"
    and "\<forall>j<k. \<not> ready nm th (active (polls w + j))"
  shows "wait_loop active nm th (polled w) (active_queries active nm w) = Some (waiting k w)"
proof -
  have "wait_loop active nm th (polled w) (active_queries active nm w)
      = wait_loop active nm th (waiting k w)
          (filter (\<lambda>query. name query = nm) (active (polls w + k)))"
    unfolding waiting_0 active_queries_def using assms(2) by (rule wait_loop_skip)
  also have "\<dots> = Some (waiting k w)"
    using assms(1) by (rule wait_loop_exit)
  finally show ?thesis .
qed

lemma first_ready:
  fixes p :: nat
  assumes "ready nm th (active (p + i))"
  shows "\<exists>k. ready nm th (active (p + k)) \<and> (\<forall>j<k. \<not> ready nm th (active (p + j)))"
proof -
  have "\<exists>k. ready nm th (active (p + k))"
    using assms by blast
  then show ?thesis
    using exists_least_iff [of "\<lambda>k. ready nm th (active (p + k))"] by blast
qed

lemma until_returns:
  assumes "ready nm (progressions_arg p) (active (polls w + k))"
    and "\<forall>j<k. \<not> ready nm (progressions_arg p) (active (polls w + j))"
  shows "until_stream_is_ready active nm p w = Some (returned nm k w)"
  by (simp add: until_stream_is_ready_def wait_loop_returns [OF assms] returned_print)

lemma until_diverges:
  assumes "\<forall>j. \<not> ready nm (progressions_arg p) (active (polls w + j))"
  shows "until_stream_is_ready active nm p w = None"
  by (simp add: until_stream_is_ready_def wait_loop_diverges [OF assms])

lemma polls_returned: "polls (returned nm k w) = polls w + Suc k"
  by (simp add: returned_def)

lemma returned_same_poll:
  assumes "returned nm k' w = returned nm k w"
  shows "k' = k"
proof -
  from assms have "polls (returned nm k' w) = polls (returned nm k w)" by simp
  then show ?thesis by (simp add: polls_returned)
qed

lemma until_Some_iff:
  "until_stream_is_ready active nm p w = Some w' \<longleftrightarrow>
     (\<exists>k. ready nm (progressions_arg p) (active (polls w + k)) \<and>
          (\<forall>j<k. \<not> ready nm (progressions_arg p) (active (polls w + j))) \<and>
          w' = returned nm k w)"
  (is "?L \<longleftrightarrow> ?R")
proof
  assume L: ?L
  have "\<exists>i. ready nm (progressions_arg p) (active (polls w + i))"
  proof (rule ccontr)
    assume "\<not> ?thesis"
    then have "\<forall>j. \<not> ready nm (progressions_arg p) (active (polls w + j))" by blast
    then have "until_stream_is_ready active nm p w = None" by (rule until_diverges)
    with L show False by simp
  qed
  then obtain i where "ready nm (progressions_arg p) (active (polls w + i))" ..
  then obtain k where k: "ready nm (progressions_arg p) (active (polls w + k))"
      "\<forall>j<k. \<not> ready nm (progressions_arg p) (active (polls w + j))"
    using first_ready by blast
  from k have "until_stream_is_ready active nm p w = Some (returned nm k w)"
    by (rule until_returns)
  with L have "w' = returned nm k w" by simp
  with k show ?R by blast
next
  assume ?R
  then obtain k where k: "ready nm (progressions_arg p) (active (polls w + k))"
      "\<forall>j<k. \<not> ready nm (progressions_arg p) (active (polls w + j))"
      and w': "w' = returned nm k w" by blast
  from k(1,2) have "until_stream_is_ready active nm p w = Some (returned nm k w)"
    by (rule until_returns)
  with w' show ?L by simp
qed

lemma until_None_iff:
  "until_stream_is_ready active nm p w = None \<longleftrightarrow>
     (\<forall>k. \<not> ready nm (progressions_arg p) (active (polls w + k)))"
proof
  assume none: "until_stream_is_ready active nm p w = None"
  show "\<forall>k. \<not> ready nm (progressions_arg p) (active (polls w + k))"
  proof (rule ccontr)
    assume "\<not> ?thesis"
    then obtain i where "ready nm (progressions_arg p) (active (polls w + i))" by blast
    then obtain k where k: "ready nm (progressions_arg p) (active (polls w + k))"
      "\<forall>j<k. \<not> ready nm (progressions_arg p) (active (polls w + j))"
      using first_ready by blast
    from k have "until_stream_is_ready active nm p w = Some (returned nm k w)"
      by (rule until_returns)
    with none show False by simp
  qed
next
  assume "\<forall>k. \<not> ready nm (progressions_arg p) (active (polls w + k))"
  then show "until_stream_is_ready active nm p w = None" by (rule until_diverges)
qed

section \<open>The bounded run\<close>

lemma wait_loop_within_pending:
  assumes "\<forall>j\<le>n. \<not> ready nm th (active (polls w + i + j))"
  shows "wait_loop_within n active nm th (waiting i w)
           (filter (\<lambda>query. name query = nm) (active (polls w + i))) = Pending (waiting (i + n) w)"
  using assms
proof (induction n arbitrary: i)
  case 0
  then show ?case by (simp add: loop_cond_filter)
next
  case (Suc n)
  from Suc.prems have now: "\<not> ready nm th (active (polls w + i))"
    by (metis add.right_neutral le0)
  have "\<forall>j\<le>n. \<not> ready nm th (active (polls w + Suc i + j))"
  proof (intro allI impI)
    fix j assume "j \<le> n"
    then have "Suc j \<le> Suc n" by simp
    with Suc.prems have "\<not> ready nm th (active (polls w + i + Suc j))" by blast
    then show "\<not> ready nm th (active (polls w + Suc i + j))" by simp
  qed
  from Suc.IH [OF this] now show ?case
    by (simp add: loop_cond_filter waiting_Suc queries_after_sleep)
qed

lemma wait_loop_within_returned:
  assumes "ready nm th (active (polls w + i + k))"
    and "\<forall>j<k. \<not> ready nm th (active (polls w + i + j))"
    and "k \<le> n"
  shows "wait_loop_within n active nm th (waiting i w)
           (filter (\<lambda>query. name query = nm) (active (polls w + i))) = Returned (waiting (i + k) w)"
  using assms
proof (induction n arbitrary: i k)
  case 0
  then show ?case by (simp add: loop_cond_filter)
next
  case (Suc n)
  show ?case
  proof (cases k)
    case 0
    with Suc.prems show ?thesis by (simp add: loop_cond_filter)
  next
    case (Suc k')
    with Suc.prems have now: "\<not> ready nm th (active (polls w + i))"
      by (metis add.right_neutral zero_less_Suc)
    have r: "ready nm th (active (polls w + Suc i + k'))"
      using Suc.prems(1) Suc by simp
    have nr: "\<forall>j<k'. \<not> ready nm th (active (polls w + Suc i + j))"
    proof (intro allI impI)
      fix j assume "j < k'"
      then have "Suc j < k" using Suc by simp
      with Suc.prems(2) have "\<not> ready nm th (active (polls w + i + Suc j))" by blast
      then show "\<not> ready nm th (active (polls w + Suc i + j))" by simp
    qed
    have le: "k' \<le> n" using Suc.prems(3) Suc by simp
    from Suc.IH [OF r nr le] now Suc show ?thesis
      by (simp add: loop_cond_filter waiting_Suc queries_after_sleep)
  qed
qed

lemma until_within_pending:
  assumes "\<forall>j\<le>n. \<not> ready nm (progressions_arg p) (active (polls w + j))"
  shows "until_stream_is_ready_within n active nm p w = Pending (waiting n w)"
proof -
  from assms have "\<forall>j\<le>n. \<not> ready nm (progressions_arg p) (active (polls w + 0 + j))"
    by simp
  from wait_loop_within_pending [OF this]
  show ?thesis
    by (simp add: until_stream_is_ready_within_def waiting_0 active_queries_def)
qed

lemma until_within_returned:
  assumes "ready nm (progressions_arg p) (active (polls w + k))"
    and "\<forall>j<k. \<not> ready nm (progressions_arg p) (active (polls w + j))"
    and "k \<le> n"
  shows "until_stream_is_ready_within n active nm p w = Returned (returned nm k w)"
proof -
  from assms(1) have r: "ready nm (progressions_arg p) (active (polls w + 0 + k))" by simp
  from assms(2) have nr: "\<forall>j<k. \<not> ready nm (progressions_arg p) (active (polls w + 0 + j))"
    by simp
  from wait_loop_within_returned [OF r nr assms(3)]
  show ?thesis
    by (simp add: until_stream_is_ready_within_def waiting_0 active_queries_def returned_print)
qed

section \<open>Readiness of a snapshot\<close>

lemma first_match_filter:
  "first_match nm snapshot =
     (case filter (\<lambda>query. name query = nm) snapshot of [] \<Rightarrow> None | q # _ \<Rightarrow> Some q)"
  by (induction snapshot) (simp_all add: first_match_def)

lemma ready_iff:
  "ready nm th snapshot \<longleftrightarrow>
     (\<exists>q. first_match nm snapshot = Some q \<and> th \<le> int (length (recentProgress q)))"
  by (simp add: ready_def split: option.splits)

lemma first_match_None_iff:
  "first_match nm snapshot = None \<longleftrightarrow> (\<forall>q\<in>set snapshot. name q \<noteq> nm)"
  by (auto simp: first_match_def find_None_iff)

lemma ready_nonpositive:
  assumes "th \<le> 0"
  shows "ready nm th snapshot \<longleftrightarrow> (\<exists>q\<in>set snapshot. name q = nm)"
proof (cases "first_match nm snapshot")
  case None
  then show ?thesis using first_match_None_iff [of nm snapshot] by (simp add: ready_def)
next
  case (Some q)
  then have "\<not> (\<forall>q\<in>set snapshot. name q \<noteq> nm)"
    using first_match_None_iff [of nm snapshot] by simp
  with Some assms show ?thesis by (simp add: ready_def)
qed

lemma ready_filter_Cons:
  assumes "filter (\<lambda>query. name query = nm) snapshot = q # rest"
  shows "ready nm th snapshot \<longleftrightarrow> th \<le> int (length (recentProgress q))"
  using assms by (simp add: ready_def first_match_filter)

section \<open>The loop decides on the queries it holds\<close>

lemma wait_loop_polls:
  fixes active :: "'p streams"
  assumes "wait_loop active nm th w0 qs = Some w'"
  shows "polls w0 \<le> polls w'"
proof (rule wait_loop.raw_induct [where P = "\<lambda>(a :: 'p streams) n t v (q :: 'p query list) r.
    polls v \<le> polls r", OF _ assms])
  fix wl :: "'p streams \<Rightarrow> string \<Rightarrow> int \<Rightarrow> world \<Rightarrow> 'p query list \<Rightarrow> world option"
  fix a :: "'p streams" and n t v and q :: "'p query list" and r
  assume IH: "\<And>a n t v q r. wl a n t v q = Some r \<Longrightarrow> polls v \<le> polls r"
    and step: "(if loop_cond q t
          then wl a n t (polled (sleep 5 v)) (active_queries a n (sleep 5 v))
          else Some v) = Some r"
  show "polls v \<le> polls r"
  proof (cases "loop_cond q t")
    case True
    with step have "wl a n t (polled (sleep 5 v)) (active_queries a n (sleep 5 v)) = Some r"
      by simp
    from IH [OF this] show ?thesis by (simp add: polled_def sleep_def)
  next
    case False
    with step show ?thesis by simp
  qed
qed

lemma wait_loop_exits_at_once:
  "wait_loop active nm th w queries = Some w \<longleftrightarrow> \<not> loop_cond queries th"
proof
  assume same: "wait_loop active nm th w queries = Some w"
  show "\<not> loop_cond queries th"
  proof
    assume "loop_cond queries th"
    with same have "wait_loop active nm th (polled (sleep 5 w))
        (active_queries active nm (sleep 5 w)) = Some w"
      by (subst (asm) wait_loop.simps) simp
    from wait_loop_polls [OF this] show False by (simp add: polled_def sleep_def)
  qed
next
  assume "\<not> loop_cond queries th"
  then show "wait_loop active nm th w queries = Some w"
    by (subst wait_loop.simps) simp
qed

section \<open>What a call prints\<close>

lemma printed_append: "printed (xs @ ys) = printed xs @ printed ys"
  by (induction xs rule: printed.induct) simp_all

lemma printed_retries: "printed (concat (replicate k [Sleep d, Poll])) = []"
  by (induction k) simp_all

lemma printed_waiting: "printed (trace (waiting k w)) = printed (trace w)"
  by (simp add: waiting_def printed_append printed_retries)

lemma printed_returned:
  "printed (trace (returned nm k w)) =
     printed (trace w) @ [''The stream '' @ nm @ '' is active and ready.'']"
  by (simp add: returned_def printed_append printed_retries)

section \<open>Every bounded run is a prefix of the same schedule\<close>

lemma until_within_cases:
  "(\<exists>k\<le>n. until_stream_is_ready_within n active nm p w = Returned (returned nm k w)) \<or>
   until_stream_is_ready_within n active nm p w = Pending (waiting n w)"
proof (cases "\<forall>j\<le>n. \<not> ready nm (progressions_arg p) (active (polls w + j))")
  case True
  then show ?thesis by (simp add: until_within_pending)
next
  case False
  then obtain i where i: "i \<le> n" "ready nm (progressions_arg p) (active (polls w + i))"
    by blast
  then obtain k where k: "ready nm (progressions_arg p) (active (polls w + k))"
      "\<forall>j<k. \<not> ready nm (progressions_arg p) (active (polls w + j))"
    using first_ready by blast
  have "k \<le> i"
  proof (rule ccontr)
    assume "\<not> k \<le> i"
    then have "i < k" by simp
    with k(2) i(2) show False by blast
  qed
  with i(1) have "k \<le> n" by simp
  from until_within_returned [OF k this] this show ?thesis by blast
qed

text \<open>The bounded run and the function agree on whether, and how, the call returns.\<close>

lemma until_within_agrees:
  "until_stream_is_ready active nm p w = Some w' \<longleftrightarrow>
     (\<exists>n. until_stream_is_ready_within n active nm p w = Returned w')"
proof
  assume "until_stream_is_ready active nm p w = Some w'"
  then obtain k where k: "ready nm (progressions_arg p) (active (polls w + k))"
      "\<forall>j<k. \<not> ready nm (progressions_arg p) (active (polls w + j))"
      and w': "w' = returned nm k w"
    unfolding until_Some_iff by blast
  have "until_stream_is_ready_within k active nm p w = Returned (returned nm k w)"
    using k by (rule until_within_returned) simp
  with w' show "\<exists>n. until_stream_is_ready_within n active nm p w = Returned w'" by blast
next
  assume "\<exists>n. until_stream_is_ready_within n active nm p w = Returned w'"
  then obtain n where n: "until_stream_is_ready_within n active nm p w = Returned w'" ..
  have "\<not> (\<forall>j\<le>n. \<not> ready nm (progressions_arg p) (active (polls w + j)))"
  proof
    assume "\<forall>j\<le>n. \<not> ready nm (progressions_arg p) (active (polls w + j))"
    then have "until_stream_is_ready_within n active nm p w = Pending (waiting n w)"
      by (rule until_within_pending)
    with n show False by simp
  qed
  then obtain i where i: "i \<le> n" "ready nm (progressions_arg p) (active (polls w + i))"
    by blast
  then obtain k where k: "ready nm (progressions_arg p) (active (polls w + k))"
      "\<forall>j<k. \<not> ready nm (progressions_arg p) (active (polls w + j))"
    using first_ready by blast
  have "k \<le> i"
  proof (rule ccontr)
    assume "\<not> k \<le> i"
    then have "i < k" by simp
    with k(2) i(2) show False by blast
  qed
  with i(1) have "k \<le> n" by simp
  with k have "until_stream_is_ready_within n active nm p w = Returned (returned nm k w)"
    by (rule until_within_returned)
  with n have "w' = returned nm k w" by simp
  moreover from k have "until_stream_is_ready active nm p w = Some (returned nm k w)"
    by (rule until_returns)
  ultimately show "until_stream_is_ready active nm p w = Some w'" by simp
qed

section \<open>The example engines\<close>

lemma job_a_ready: "ready ''job-A'' 3 (job_a i) \<longleftrightarrow> 3 \<le> i"
  by (simp add: ready_def first_match_def job_a_def)

lemma job_a_first_match:
  "first_match ''job-A'' (job_a i) =
     Some \<lparr>name = ''job-A'', recentProgress = replicate (min i 3) ()\<rparr>"
  by (simp add: first_match_def job_a_def)

lemma two_named_filter:
  "filter (\<lambda>query. name query = ''job-A'') (two_named i) =
     \<lparr>name = ''job-A'', recentProgress = replicate i ()\<rparr> #
     [\<lparr>name = ''job-A'', recentProgress = replicate 5 ()\<rparr>]"
  by (simp add: two_named_def)

lemma dipping_ready: "ready ''job-A'' 3 (dipping i) \<longleftrightarrow> 2 \<le> i"
  by (simp add: ready_def first_match_def dipping_def)

lemma job_a_runs:
  "until_stream_is_ready job_a ''job-A'' None fresh = Some (returned ''job-A'' 3 fresh)"
  by (rule until_returns) (simp_all add: job_a_ready progressions_arg_def fresh_def)

lemma job_a_pending:
  "until_stream_is_ready_within 2 job_a ''job-A'' None fresh = Pending (waiting 2 fresh)"
  by (rule until_within_pending) (simp add: job_a_ready progressions_arg_def fresh_def)

lemma job_a_returned:
  "until_stream_is_ready_within 3 job_a ''job-A'' None fresh = Returned (returned ''job-A'' 3 fresh)"
  by (rule until_within_returned) (simp_all add: job_a_ready progressions_arg_def fresh_def)

lemma lesson03_ready: "ready ''lesson03_stream'' 3 (lesson03 i) \<longleftrightarrow> 3 \<le> i"
  by (simp add: ready_def first_match_def lesson03_def)

section \<open>The claims\<close>

text \<open>
  C1, as amended. For every non-empty name and positive \<open>progressions\<close>, the call returns
  exactly when an observed snapshot contains a job of the given name and the first such
  job in enumeration order has at least \<open>progressions\<close> progress reports: it returns with
  the world \<open>returned nm k w\<close> for the first such read \<open>k\<close> and with no other. While the
  matching set is empty or the first match's count is below \<open>progressions\<close>, it has slept
  after each read and is still pending. On return, the last snapshot read shows at least
  \<open>progressions\<close> reports for the first job of that name.
\<close>

theorem returns_when_first_match_ready:
  assumes "nm \<noteq> []" and "0 < th"
  shows "(until_stream_is_ready active nm (Some th) w = Some w' \<longleftrightarrow>
            (\<exists>k. ready nm th (active (polls w + k)) \<and>
                 (\<forall>j<k. \<not> ready nm th (active (polls w + j))) \<and>
                 w' = returned nm k w))
       \<and> ((\<forall>j\<le>n. \<not> ready nm th (active (polls w + j))) \<longrightarrow>
            until_stream_is_ready_within n active nm (Some th) w = Pending (waiting n w))
       \<and> (until_stream_is_ready active nm (Some th) w = Some w' \<longrightarrow>
            (\<exists>q. first_match nm (active (polls w' - 1)) = Some q \<and>
                 th \<le> int (length (recentProgress q))))"
proof (intro conjI impI)
  show "until_stream_is_ready active nm (Some th) w = Some w' \<longleftrightarrow>
            (\<exists>k. ready nm th (active (polls w + k)) \<and>
                 (\<forall>j<k. \<not> ready nm th (active (polls w + j))) \<and>
                 w' = returned nm k w)"
    using until_Some_iff [of active nm "Some th" w w'] by (simp add: progressions_arg_def)
next
  assume "\<forall>j\<le>n. \<not> ready nm th (active (polls w + j))"
  then have "\<forall>j\<le>n. \<not> ready nm (progressions_arg (Some th)) (active (polls w + j))"
    by (simp add: progressions_arg_def)
  then show "until_stream_is_ready_within n active nm (Some th) w = Pending (waiting n w)"
    by (rule until_within_pending)
next
  assume "until_stream_is_ready active nm (Some th) w = Some w'"
  then obtain k where k: "ready nm th (active (polls w + k))" and w': "w' = returned nm k w"
    using until_Some_iff [of active nm "Some th" w w'] by (auto simp: progressions_arg_def)
  from w' have "polls w' - 1 = polls w + k" by (simp add: polls_returned)
  with k show "\<exists>q. first_match nm (active (polls w' - 1)) = Some q \<and>
                 th \<le> int (length (recentProgress q))"
    by (simp add: ready_iff)
qed

text \<open>
  The scenario of the specification, threshold 3 and counts 0, 1, 2, 3: pending after two
  sleeps, returned after three, and the snapshot read last holds three reports.
\<close>

theorem returns_when_first_match_ready_witness:
  "''job-A'' \<noteq> [] \<and> (0::int) < 3 \<and>
   until_stream_is_ready job_a ''job-A'' (Some 3) fresh =
     Some \<lparr>polls = 4,
           trace = [Poll, Sleep 5, Poll, Sleep 5, Poll, Sleep 5, Poll,
                    Print ''The stream job-A is active and ready.'']\<rparr> \<and>
   until_stream_is_ready_within 2 job_a ''job-A'' (Some 3) fresh =
     Pending \<lparr>polls = 3, trace = [Poll, Sleep 5, Poll, Sleep 5, Poll]\<rparr> \<and>
   (\<exists>q. first_match ''job-A'' (job_a 3) = Some q \<and>
        (3::int) \<le> int (length (recentProgress q)))"
proof -
  have a: "''job-A'' \<noteq> []" and b: "(0::int) < 3" by simp_all
  note inst = returns_when_first_match_ready [OF a b, where active = job_a and w = fresh and n = 2
      and w' = "returned ''job-A'' 3 fresh"]
  have "ready ''job-A'' 3 (job_a (polls fresh + 3)) \<and>
        (\<forall>j<3. \<not> ready ''job-A'' 3 (job_a (polls fresh + j)))"
    by (simp add: job_a_ready fresh_def)
  then have run: "until_stream_is_ready job_a ''job-A'' (Some 3) fresh =
      Some (returned ''job-A'' 3 fresh)"
    using inst by blast
  have "\<forall>j\<le>2. \<not> ready ''job-A'' 3 (job_a (polls fresh + j))"
    by (simp add: job_a_ready fresh_def)
  then have pen: "until_stream_is_ready_within 2 job_a ''job-A'' (Some 3) fresh =
      Pending (waiting 2 fresh)"
    using inst by blast
  from inst run
  have "\<exists>q. first_match ''job-A'' (job_a (polls (returned ''job-A'' 3 fresh) - 1)) = Some q \<and>
        (3::int) \<le> int (length (recentProgress q))"
    by blast
  then have last: "\<exists>q. first_match ''job-A'' (job_a 3) = Some q \<and>
        (3::int) \<le> int (length (recentProgress q))"
    by (simp add: polls_returned fresh_def)
  from run pen last show ?thesis
    by (simp add: returned_def waiting_def fresh_def numeral_3_eq_3 numeral_2_eq_2)
qed

text \<open>
  C1 as first stated asks only for some job of the name with enough reports. With two jobs
  named alike, the first silent and the second at three reports, every snapshot holds such
  a job, and the call never returns.
\<close>

theorem later_match_ready_never_returns:
  "''job-A'' \<noteq> [] \<and> (0::int) < 3 \<and>
   stalled_first 0 ! 1 \<in> set (stalled_first 0) \<and>
   name (stalled_first 0 ! 1) = ''job-A'' \<and>
   (3::int) \<le> int (length (recentProgress (stalled_first 0 ! 1))) \<and>
   until_stream_is_ready stalled_first ''job-A'' (Some 3) fresh = None \<and>
   until_stream_is_ready_within 0 stalled_first ''job-A'' (Some 3) fresh =
     Pending \<lparr>polls = 1, trace = [Poll]\<rparr>"
proof -
  have nr: "\<not> ready ''job-A'' (progressions_arg (Some 3)) (stalled_first i)" for i
    by (simp add: ready_def first_match_def stalled_first_def progressions_arg_def)
  have "until_stream_is_ready stalled_first ''job-A'' (Some 3) fresh = None"
    by (rule until_diverges) (simp add: nr)
  moreover have "until_stream_is_ready_within 0 stalled_first ''job-A'' (Some 3) fresh =
      Pending (waiting 0 fresh)"
    by (rule until_within_pending) (simp add: nr)
  ultimately show ?thesis
    by (simp add: stalled_first_def waiting_def fresh_def)
qed

text \<open>
  C2. Let the job that the call inspects have \<open>c i\<close> progress reports at read \<open>i\<close>, with
  \<open>c\<close> growing monotonically, and let \<open>k\<close> be the read at which the count first reaches
  the threshold: \<open>c k\<close> reaches it and \<open>k\<close> is the first read or the count before was
  below. Then the call returns at read \<open>k\<close>: it is still pending within any smaller number
  of sleeps, and has returned within \<open>k\<close> sleeps or more.
\<close>

theorem returns_at_first_poll_reaching_threshold:
  assumes obs: "\<forall>i. \<exists>q. first_match nm (active (polls w + i)) = Some q \<and>
                       length (recentProgress q) = c i"
    and grows: "mono c"
    and reach: "th \<le> int (c k)"
    and first: "k = 0 \<or> int (c (k - 1)) < th"
  shows "until_stream_is_ready active nm (Some th) w = Some (returned nm k w) \<and>
         (\<forall>n<k. until_stream_is_ready_within n active nm (Some th) w = Pending (waiting n w)) \<and>
         (\<forall>n\<ge>k. until_stream_is_ready_within n active nm (Some th) w =
                  Returned (returned nm k w))"
proof -
  have rd: "ready nm (progressions_arg (Some th)) (active (polls w + i)) \<longleftrightarrow> th \<le> int (c i)"
    for i
    using obs [rule_format, of i] by (auto simp: ready_iff progressions_arg_def)
  have below: "int (c j) < th" if "j < k" for j
  proof -
    from that first have prev: "int (c (k - 1)) < th" by auto
    from that have "j \<le> k - 1" by simp
    with grows have "c j \<le> c (k - 1)" by (rule monoD)
    with prev show ?thesis by simp
  qed
  have r: "ready nm (progressions_arg (Some th)) (active (polls w + k))"
    using reach by (simp add: rd)
  have nr: "\<forall>j<k. \<not> ready nm (progressions_arg (Some th)) (active (polls w + j))"
    using below by (simp add: rd not_le)
  have "until_stream_is_ready active nm (Some th) w = Some (returned nm k w)"
    using r nr by (rule until_returns)
  moreover have "until_stream_is_ready_within n active nm (Some th) w = Pending (waiting n w)"
    if "n < k" for n
  proof (rule until_within_pending, intro allI impI)
    fix j assume "j \<le> n"
    with that have "j < k" by simp
    with nr show "\<not> ready nm (progressions_arg (Some th)) (active (polls w + j))" by blast
  qed
  moreover have "until_stream_is_ready_within n active nm (Some th) w =
      Returned (returned nm k w)" if "k \<le> n" for n
    using r nr that by (rule until_within_returned)
  ultimately show ?thesis by blast
qed

text \<open>
  The scenario of the specification: threshold 3, counts 0, 1, 2, 3 at the reads 0 to 3.
  The call is pending after the first, second and third read and returns after the fourth.
\<close>

theorem returns_at_first_poll_reaching_threshold_witness:
  "until_stream_is_ready job_a ''job-A'' (Some 3) fresh =
     Some \<lparr>polls = 4,
           trace = [Poll, Sleep 5, Poll, Sleep 5, Poll, Sleep 5, Poll,
                    Print ''The stream job-A is active and ready.'']\<rparr> \<and>
   until_stream_is_ready_within 0 job_a ''job-A'' (Some 3) fresh =
     Pending \<lparr>polls = 1, trace = [Poll]\<rparr> \<and>
   until_stream_is_ready_within 1 job_a ''job-A'' (Some 3) fresh =
     Pending \<lparr>polls = 2, trace = [Poll, Sleep 5, Poll]\<rparr> \<and>
   until_stream_is_ready_within 2 job_a ''job-A'' (Some 3) fresh =
     Pending \<lparr>polls = 3, trace = [Poll, Sleep 5, Poll, Sleep 5, Poll]\<rparr> \<and>
   until_stream_is_ready_within 3 job_a ''job-A'' (Some 3) fresh =
     Returned \<lparr>polls = 4,
           trace = [Poll, Sleep 5, Poll, Sleep 5, Poll, Sleep 5, Poll,
                    Print ''The stream job-A is active and ready.'']\<rparr>"
proof -
  have obs: "\<forall>i. \<exists>q. first_match ''job-A'' (job_a (polls fresh + i)) = Some q \<and>
                       length (recentProgress q) = min i 3"
    by (simp add: job_a_first_match fresh_def)
  have grows: "mono (\<lambda>i::nat. min i 3)"
    by (rule monoI) simp
  have reach: "(3::int) \<le> int (min 3 3)" by simp
  have first: "(3::nat) = 0 \<or> int (min (3 - 1) 3) < 3" by simp
  note run = returns_at_first_poll_reaching_threshold
    [where c = "\<lambda>i. min i 3" and k = 3, OF obs grows reach first]
  from run have "until_stream_is_ready job_a ''job-A'' (Some 3) fresh =
      Some (returned ''job-A'' 3 fresh)" by blast
  moreover from run have "until_stream_is_ready_within 0 job_a ''job-A'' (Some 3) fresh =
      Pending (waiting 0 fresh)" by simp
  moreover from run have "until_stream_is_ready_within 1 job_a ''job-A'' (Some 3) fresh =
      Pending (waiting 1 fresh)" by simp
  moreover from run have "until_stream_is_ready_within 2 job_a ''job-A'' (Some 3) fresh =
      Pending (waiting 2 fresh)" by simp
  moreover from run have "until_stream_is_ready_within 3 job_a ''job-A'' (Some 3) fresh =
      Returned (returned ''job-A'' 3 fresh)" by simp
  ultimately show ?thesis
    by (simp add: returned_def waiting_def fresh_def numeral_3_eq_3 numeral_2_eq_2)
qed

text \<open>
  C3. If no snapshot ever contains a job of the given name, the call never returns,
  whatever the threshold: after any number of sleeps it is still pending, having slept
  that many times. No bound on retries, no timeout and no error ends it.
\<close>

theorem blocks_forever_without_matching_job:
  assumes "\<forall>i. \<forall>q\<in>set (active (polls w + i)). name q \<noteq> nm"
  shows "until_stream_is_ready active nm p w = None \<and>
         (\<forall>n. until_stream_is_ready_within n active nm p w = Pending (waiting n w))"
proof -
  have nr: "\<not> ready nm (progressions_arg p) (active (polls w + i))" for i
  proof -
    from assms have "first_match nm (active (polls w + i)) = None"
      by (simp add: first_match_None_iff)
    then show ?thesis by (simp add: ready_def)
  qed
  have "until_stream_is_ready active nm p w = None"
    by (rule until_diverges) (simp add: nr)
  moreover have "until_stream_is_ready_within n active nm p w = Pending (waiting n w)" for n
    by (rule until_within_pending) (simp add: nr)
  ultimately show ?thesis by blast
qed

theorem blocks_forever_without_matching_job_witness:
  "until_stream_is_ready other_only ''lesson03_stream'' None fresh = None \<and>
   until_stream_is_ready other_only ''lesson03_stream'' (Some 1) fresh = None \<and>
   until_stream_is_ready_within 2 other_only ''lesson03_stream'' None fresh =
     Pending \<lparr>polls = 3, trace = [Poll, Sleep 5, Poll, Sleep 5, Poll]\<rparr>"
proof -
  have absent: "\<forall>i. \<forall>q\<in>set (other_only (polls fresh + i)). name q \<noteq> ''lesson03_stream''"
    by (simp add: other_only_def)
  from blocks_forever_without_matching_job [OF absent, of None]
    blocks_forever_without_matching_job [OF absent, of "Some 1"]
  show ?thesis
    by (simp add: waiting_def fresh_def numeral_2_eq_2)
qed

text \<open>
  C4. If the first inspection of the active set finds the job with at least the
  configured threshold of reports, the call returns after that one read, without any
  sleep: a budget of zero sleeps suffices.
\<close>

theorem returns_without_sleep_when_ready_at_first_read:
  assumes "first_match nm (active (polls w)) = Some q"
    and "progressions_arg p \<le> int (length (recentProgress q))"
  shows "until_stream_is_ready active nm p w =
           Some \<lparr>polls = Suc (polls w),
                 trace = trace w @ [Poll, Print (''The stream '' @ nm @ '' is active and ready.'')]\<rparr>
       \<and> until_stream_is_ready_within 0 active nm p w =
           Returned \<lparr>polls = Suc (polls w),
                 trace = trace w @ [Poll, Print (''The stream '' @ nm @ '' is active and ready.'')]\<rparr>"
proof -
  from assms have r: "ready nm (progressions_arg p) (active (polls w + 0))"
    by (simp add: ready_iff)
  have nr: "\<forall>j<0. \<not> ready nm (progressions_arg p) (active (polls w + j))" by simp
  have "until_stream_is_ready active nm p w = Some (returned nm 0 w)"
    using r nr by (rule until_returns)
  moreover have "until_stream_is_ready_within 0 active nm p w = Returned (returned nm 0 w)"
    using r nr by (rule until_within_returned) simp
  ultimately show ?thesis by (simp add: returned_def)
qed

theorem returns_without_sleep_when_ready_at_first_read_witness:
  "until_stream_is_ready warmed_up ''lesson03_stream'' None fresh =
     Some \<lparr>polls = 1,
           trace = [Poll, Print ''The stream lesson03_stream is active and ready.'']\<rparr> \<and>
   until_stream_is_ready_within 0 warmed_up ''lesson03_stream'' None fresh =
     Returned \<lparr>polls = 1,
           trace = [Poll, Print ''The stream lesson03_stream is active and ready.'']\<rparr>"
proof -
  have fm: "first_match ''lesson03_stream'' (warmed_up (polls fresh)) =
      Some \<lparr>name = ''lesson03_stream'', recentProgress = replicate 4 ()\<rparr>"
    by (simp add: first_match_def warmed_up_def)
  have enough: "progressions_arg None \<le>
      int (length (recentProgress \<lparr>name = ''lesson03_stream'', recentProgress = replicate 4 ()\<rparr>))"
    by (simp add: progressions_arg_def)
  from returns_without_sleep_when_ready_at_first_read
    [where active = warmed_up and w = fresh, OF fm enough]
  show ?thesis by (simp add: fresh_def)
qed

text \<open>
  C5. When two or more active jobs share the given name, so that the filtered list is
  \<open>first i\<close> followed by the further matches \<open>others i\<close> at every read, readiness is
  decided by \<open>first i\<close> alone: the call returns exactly at the first read at which the
  first-enumerated match has at least the threshold of reports. The other matches are
  arbitrary and do not occur in the condition.
\<close>

theorem first_enumerated_match_decides:
  assumes "\<forall>i. filter (\<lambda>query. name query = nm) (active (polls w + i)) = first i # others i"
  shows "until_stream_is_ready active nm (Some th) w = Some w' \<longleftrightarrow>
           (\<exists>k. th \<le> int (length (recentProgress (first k))) \<and>
                (\<forall>j<k. int (length (recentProgress (first j))) < th) \<and>
                w' = returned nm k w)"
proof -
  have rd: "ready nm (progressions_arg (Some th)) (active (polls w + i)) \<longleftrightarrow>
      th \<le> int (length (recentProgress (first i)))" for i
    using ready_filter_Cons [OF assms [rule_format, of i]] by (simp add: progressions_arg_def)
  show ?thesis
    unfolding until_Some_iff rd by (simp add: not_le)
qed

text \<open>
  Two jobs named alike: the second has five reports throughout, the first has as many as
  reads so far. With threshold 3 the call returns after the fourth read, not the first.
\<close>

theorem first_enumerated_match_decides_witness:
  "until_stream_is_ready two_named ''job-A'' (Some 3) fresh =
     Some \<lparr>polls = 4,
           trace = [Poll, Sleep 5, Poll, Sleep 5, Poll, Sleep 5, Poll,
                    Print ''The stream job-A is active and ready.'']\<rparr>"
proof -
  have both: "\<forall>i. filter (\<lambda>query. name query = ''job-A'') (two_named (polls fresh + i)) =
      \<lparr>name = ''job-A'', recentProgress = replicate i ()\<rparr> #
      [\<lparr>name = ''job-A'', recentProgress = replicate 5 ()\<rparr>]"
    by (simp add: two_named_filter fresh_def)
  note inst = first_enumerated_match_decides
    [where first = "\<lambda>i. \<lparr>name = ''job-A'', recentProgress = replicate i ()\<rparr>"
       and others = "\<lambda>i. [\<lparr>name = ''job-A'', recentProgress = replicate 5 ()\<rparr>]"
       and th = 3 and w' = "returned ''job-A'' 3 fresh", OF both]
  have "until_stream_is_ready two_named ''job-A'' (Some 3) fresh =
      Some (returned ''job-A'' 3 fresh)"
    unfolding inst by (intro exI [of _ 3]) simp
  then show ?thesis
    by (simp add: returned_def fresh_def numeral_3_eq_3)
qed

text \<open>
  C6. The comparison uses the progress-log length of the snapshot just read, not a
  maximum kept from earlier reads. At the loop: entered in any world, after any history,
  with the queries of the latest snapshot, the loop exits at once exactly when the first
  of these queries has at least the threshold of reports. At the call: while it is still
  polling at read \<open>k\<close>, it returns at read \<open>k\<close> exactly when the first match of snapshot
  \<open>k\<close> has at least the threshold of reports. No assumption is made on how the lengths
  of successive snapshots compare.
\<close>

theorem comparison_uses_latest_snapshot:
  "(wait_loop active nm th w queries = Some w \<longleftrightarrow>
      (\<exists>q rest. queries = q # rest \<and> th \<le> int (length (recentProgress q))))
   \<and> ((\<forall>j<k. \<not> ready nm th (active (polls w + j))) \<longrightarrow>
        (until_stream_is_ready active nm (Some th) w = Some (returned nm k w) \<longleftrightarrow>
         (\<exists>q. first_match nm (active (polls w + k)) = Some q \<and>
              th \<le> int (length (recentProgress q)))))"
proof (intro conjI impI)
  have "\<not> loop_cond queries th \<longleftrightarrow>
      (\<exists>q rest. queries = q # rest \<and> th \<le> int (length (recentProgress q)))"
    by (cases queries) (simp_all add: loop_cond_def not_less)
  then show "wait_loop active nm th w queries = Some w \<longleftrightarrow>
      (\<exists>q rest. queries = q # rest \<and> th \<le> int (length (recentProgress q)))"
    by (simp add: wait_loop_exits_at_once)
next
  assume waiting: "\<forall>j<k. \<not> ready nm th (active (polls w + j))"
  show "until_stream_is_ready active nm (Some th) w = Some (returned nm k w) \<longleftrightarrow>
         (\<exists>q. first_match nm (active (polls w + k)) = Some q \<and>
              th \<le> int (length (recentProgress q)))"
  proof
    assume "until_stream_is_ready active nm (Some th) w = Some (returned nm k w)"
    then obtain k' where k': "ready nm th (active (polls w + k'))"
        "returned nm k w = returned nm k' w"
      unfolding until_Some_iff by (auto simp: progressions_arg_def)
    from k'(2) have "k = k'" by (rule returned_same_poll)
    with k'(1) show "\<exists>q. first_match nm (active (polls w + k)) = Some q \<and>
              th \<le> int (length (recentProgress q))"
      by (simp add: ready_iff)
  next
    assume "\<exists>q. first_match nm (active (polls w + k)) = Some q \<and>
              th \<le> int (length (recentProgress q))"
    then have "ready nm (progressions_arg (Some th)) (active (polls w + k))"
      by (simp add: ready_iff progressions_arg_def)
    moreover from waiting
    have "\<forall>j<k. \<not> ready nm (progressions_arg (Some th)) (active (polls w + j))"
      by (simp add: progressions_arg_def)
    ultimately show "until_stream_is_ready active nm (Some th) w = Some (returned nm k w)"
      by (rule until_returns)
  qed
qed

text \<open>
  A log of five reports at read 0 and of one report at read 1: the loop holding the
  snapshot of read 1 does not exit against threshold 3. A log of 2, 1, then 3 reports:
  the call returns after the third read.
\<close>

theorem comparison_uses_latest_snapshot_witness:
  "length (recentProgress (hd (shrinking 0))) = 5 \<and>
   active_queries shrinking ''job-A'' \<lparr>polls = 1, trace = [Poll]\<rparr> =
     [\<lparr>name = ''job-A'', recentProgress = [()]\<rparr>] \<and>
   wait_loop shrinking ''job-A'' 3 \<lparr>polls = 2, trace = [Poll, Sleep 5, Poll]\<rparr>
       [\<lparr>name = ''job-A'', recentProgress = [()]\<rparr>]
     \<noteq> Some \<lparr>polls = 2, trace = [Poll, Sleep 5, Poll]\<rparr> \<and>
   until_stream_is_ready dipping ''job-A'' (Some 3) fresh =
     Some \<lparr>polls = 3,
           trace = [Poll, Sleep 5, Poll, Sleep 5, Poll,
                    Print ''The stream job-A is active and ready.'']\<rparr>"
proof -
  note loop = comparison_uses_latest_snapshot
    [where active = shrinking and nm = "''job-A''" and th = 3
       and w = "\<lparr>polls = 2, trace = [Poll, Sleep 5, Poll]\<rparr>"
       and queries = "[\<lparr>name = ''job-A'', recentProgress = [()]\<rparr>]", THEN conjunct1]
  note call = comparison_uses_latest_snapshot
    [where active = dipping and nm = "''job-A''" and th = 3 and w = fresh and k = 2,
     THEN conjunct2, THEN mp]
  have "wait_loop shrinking ''job-A'' 3 \<lparr>polls = 2, trace = [Poll, Sleep 5, Poll]\<rparr>
       [\<lparr>name = ''job-A'', recentProgress = [()]\<rparr>]
     \<noteq> Some \<lparr>polls = 2, trace = [Poll, Sleep 5, Poll]\<rparr>"
    unfolding loop by simp
  moreover have "\<forall>j<2. \<not> ready ''job-A'' 3 (dipping (polls fresh + j))"
    by (simp add: dipping_ready fresh_def)
  from call [OF this]
  have "until_stream_is_ready dipping ''job-A'' (Some 3) fresh =
      Some (returned ''job-A'' 2 fresh)"
    by (simp add: first_match_def dipping_def fresh_def)
  ultimately show ?thesis
    by (simp add: returned_def fresh_def numeral_2_eq_2 shrinking_def active_queries_def)
qed

text \<open>
  C7. Every wait between two successive reads of the active set lasts exactly 5: the
  events of a call, as far as any bounded run follows it and when it returns, are one
  read followed by repetitions of a sleep of 5 and a read; the interval never changes.
\<close>

theorem every_wait_lasts_five:
  "((\<exists>k\<le>n. until_stream_is_ready_within n active nm p w =
        Returned \<lparr>polls = polls w + Suc k,
                  trace = trace w @ Poll # concat (replicate k [Sleep 5, Poll]) @
                          [Print (ready_message nm)]\<rparr>) \<or>
    until_stream_is_ready_within n active nm p w =
        Pending \<lparr>polls = polls w + Suc n,
                 trace = trace w @ Poll # concat (replicate n [Sleep 5, Poll])\<rparr>)
   \<and> (until_stream_is_ready active nm p w = Some w' \<longrightarrow>
        (\<exists>k. trace w' = trace w @ Poll # concat (replicate k [Sleep 5, Poll]) @
                         [Print (ready_message nm)]))"
proof (intro conjI impI)
  show "(\<exists>k\<le>n. until_stream_is_ready_within n active nm p w =
        Returned \<lparr>polls = polls w + Suc k,
                  trace = trace w @ Poll # concat (replicate k [Sleep 5, Poll]) @
                          [Print (ready_message nm)]\<rparr>) \<or>
    until_stream_is_ready_within n active nm p w =
        Pending \<lparr>polls = polls w + Suc n,
                 trace = trace w @ Poll # concat (replicate n [Sleep 5, Poll])\<rparr>"
    using until_within_cases [of n active nm p w]
    by (simp add: returned_def waiting_def ready_message_def)
next
  assume "until_stream_is_ready active nm p w = Some w'"
  then obtain k where "w' = returned nm k w"
    unfolding until_Some_iff by blast
  then have "trace w' = trace w @ Poll # concat (replicate k [Sleep 5, Poll]) @
                         [Print (ready_message nm)]"
    by (simp add: returned_def ready_message_def)
  then show "\<exists>k. trace w' = trace w @ Poll # concat (replicate k [Sleep 5, Poll]) @
                         [Print (ready_message nm)]" ..
qed

theorem every_wait_lasts_five_witness:
  "until_stream_is_ready job_a ''job-A'' None fresh =
     Some \<lparr>polls = 4,
           trace = [Poll, Sleep 5, Poll, Sleep 5, Poll, Sleep 5, Poll,
                    Print ''The stream job-A is active and ready.'']\<rparr> \<and>
   (\<exists>k. [Poll, Sleep 5, Poll, Sleep 5, Poll, Sleep 5, Poll,
         Print ''The stream job-A is active and ready.''] =
        Poll # concat (replicate k [Sleep 5, Poll]) @ [Print (ready_message ''job-A'')])"
proof -
  have run: "until_stream_is_ready job_a ''job-A'' None fresh =
     Some \<lparr>polls = 4,
           trace = [Poll, Sleep 5, Poll, Sleep 5, Poll, Sleep 5, Poll,
                    Print ''The stream job-A is active and ready.'']\<rparr>"
    unfolding job_a_runs by (simp add: returned_def fresh_def numeral_3_eq_3)
  from every_wait_lasts_five [THEN conjunct2, THEN mp, OF run] run
  show ?thesis by (simp add: fresh_def)
qed

text \<open>
  C8. A call without the \<open>progressions\<close> argument behaves as the call with threshold 3:
  it returns at the first read whose first match has at least 3 progress reports.
\<close>

theorem default_threshold_is_three:
  "until_stream_is_ready active nm None w = until_stream_is_ready active nm (Some 3) w
   \<and> until_stream_is_ready_within n active nm None w =
       until_stream_is_ready_within n active nm (Some 3) w
   \<and> (until_stream_is_ready active nm None w = Some w' \<longleftrightarrow>
        (\<exists>k. ready nm 3 (active (polls w + k)) \<and>
             (\<forall>j<k. \<not> ready nm 3 (active (polls w + j))) \<and>
             w' = returned nm k w))"
proof (intro conjI)
  show "until_stream_is_ready active nm None w = until_stream_is_ready active nm (Some 3) w"
    by (simp add: until_stream_is_ready_def progressions_arg_def)
  show "until_stream_is_ready_within n active nm None w =
       until_stream_is_ready_within n active nm (Some 3) w"
    by (simp add: until_stream_is_ready_within_def progressions_arg_def)
  show "until_stream_is_ready active nm None w = Some w' \<longleftrightarrow>
        (\<exists>k. ready nm 3 (active (polls w + k)) \<and>
             (\<forall>j<k. \<not> ready nm 3 (active (polls w + j))) \<and>
             w' = returned nm k w)"
    using until_Some_iff [of active nm None w w'] by (simp add: progressions_arg_def)
qed

text \<open>The notebook's own call, \<^verbatim>\<open>until_stream_is_ready(my_stream_name)\<close>.\<close>

theorem default_threshold_is_three_witness:
  "until_stream_is_ready lesson03 ''lesson03_stream'' None fresh =
     Some \<lparr>polls = 4,
           trace = [Poll, Sleep 5, Poll, Sleep 5, Poll, Sleep 5, Poll,
                    Print ''The stream lesson03_stream is active and ready.'']\<rparr>"
proof -
  note inst = default_threshold_is_three
    [where active = lesson03 and nm = "''lesson03_stream''" and w = fresh
       and w' = "returned ''lesson03_stream'' 3 fresh", THEN conjunct2, THEN conjunct2]
  have "until_stream_is_ready lesson03 ''lesson03_stream'' None fresh =
      Some (returned ''lesson03_stream'' 3 fresh)"
    unfolding inst by (intro exI [of _ 3]) (simp add: lesson03_ready fresh_def)
  then show ?thesis
    by (simp add: returned_def fresh_def numeral_3_eq_3)
qed

text \<open>
  C9. A call that returns has printed exactly one line, the confirmation naming the job,
  as its last event; a call that is still waiting has printed nothing. The result of the
  function is the world alone: it returns no value.
\<close>

theorem prints_one_confirmation_on_return:
  "(until_stream_is_ready active nm p w = Some w' \<longrightarrow>
      printed (trace w') = printed (trace w) @ [''The stream '' @ nm @ '' is active and ready.''] \<and>
      last (trace w') = Print (''The stream '' @ nm @ '' is active and ready.''))
   \<and> (until_stream_is_ready_within n active nm p w = Returned w' \<longrightarrow>
      printed (trace w') = printed (trace w) @ [''The stream '' @ nm @ '' is active and ready.''])
   \<and> (until_stream_is_ready_within n active nm p w = Pending w' \<longrightarrow>
      printed (trace w') = printed (trace w))"
proof (intro conjI impI)
  assume "until_stream_is_ready active nm p w = Some w'"
  then obtain k where w': "w' = returned nm k w"
    unfolding until_Some_iff by blast
  show "printed (trace w') = printed (trace w) @ [''The stream '' @ nm @ '' is active and ready.'']"
    unfolding w' by (rule printed_returned)
  show "last (trace w') = Print (''The stream '' @ nm @ '' is active and ready.'')"
    unfolding w' by (simp add: returned_def)
next
  assume ret: "until_stream_is_ready_within n active nm p w = Returned w'"
  from until_within_cases [of n active nm p w] ret
  obtain k where "w' = returned nm k w" by auto
  then show "printed (trace w') = printed (trace w) @ [''The stream '' @ nm @ '' is active and ready.'']"
    by (simp add: printed_returned)
next
  assume pen: "until_stream_is_ready_within n active nm p w = Pending w'"
  from until_within_cases [of n active nm p w] pen
  have "w' = waiting n w" by auto
  then show "printed (trace w') = printed (trace w)"
    by (simp add: printed_waiting)
qed

theorem prints_one_confirmation_on_return_witness:
  "until_stream_is_ready job_a ''job-A'' None fresh =
     Some \<lparr>polls = 4,
           trace = [Poll, Sleep 5, Poll, Sleep 5, Poll, Sleep 5, Poll,
                    Print ''The stream job-A is active and ready.'']\<rparr> \<and>
   printed [Poll, Sleep 5, Poll, Sleep 5, Poll, Sleep 5, Poll,
            Print ''The stream job-A is active and ready.''] =
     [''The stream job-A is active and ready.''] \<and>
   until_stream_is_ready_within 3 job_a ''job-A'' None fresh =
     Returned \<lparr>polls = 4,
           trace = [Poll, Sleep 5, Poll, Sleep 5, Poll, Sleep 5, Poll,
                    Print ''The stream job-A is active and ready.'']\<rparr> \<and>
   until_stream_is_ready_within 2 job_a ''job-A'' None fresh =
     Pending \<lparr>polls = 3, trace = [Poll, Sleep 5, Poll, Sleep 5, Poll]\<rparr> \<and>
   printed [Poll, Sleep 5, Poll, Sleep 5, Poll] = []"
proof -
  have ret: "until_stream_is_ready_within 3 job_a ''job-A'' None fresh =
     Returned \<lparr>polls = 4,
           trace = [Poll, Sleep 5, Poll, Sleep 5, Poll, Sleep 5, Poll,
                    Print ''The stream job-A is active and ready.'']\<rparr>"
    unfolding job_a_returned by (simp add: returned_def fresh_def numeral_3_eq_3)
  have run: "until_stream_is_ready job_a ''job-A'' None fresh =
     Some \<lparr>polls = 4,
           trace = [Poll, Sleep 5, Poll, Sleep 5, Poll, Sleep 5, Poll,
                    Print ''The stream job-A is active and ready.'']\<rparr>"
    unfolding job_a_runs by (simp add: returned_def fresh_def numeral_3_eq_3)
  have pen: "until_stream_is_ready_within 2 job_a ''job-A'' None fresh =
     Pending \<lparr>polls = 3, trace = [Poll, Sleep 5, Poll, Sleep 5, Poll]\<rparr>"
    unfolding job_a_pending by (simp add: waiting_def fresh_def numeral_2_eq_2)
  from prints_one_confirmation_on_return [THEN conjunct1, THEN mp, OF run]
    prints_one_confirmation_on_return [THEN conjunct2, THEN conjunct1, THEN mp, OF ret]
    prints_one_confirmation_on_return [THEN conjunct2, THEN conjunct2, THEN mp, OF pen]
    run ret pen
  show ?thesis by (simp add: fresh_def)
qed

text \<open>
  C10. With \<open>progressions\<close> at 0 or below, the call still waits until a job of the given
  name is in the active set, and returns at the first read that contains one, however
  many progress reports that job has.
\<close>

theorem nonpositive_threshold_waits_for_presence:
  assumes "th \<le> 0"
  shows "(until_stream_is_ready active nm (Some th) w = Some w' \<longleftrightarrow>
            (\<exists>k. (\<exists>q\<in>set (active (polls w + k)). name q = nm) \<and>
                 (\<forall>j<k. \<forall>q\<in>set (active (polls w + j)). name q \<noteq> nm) \<and>
                 w' = returned nm k w))
       \<and> ((\<forall>j\<le>n. \<forall>q\<in>set (active (polls w + j)). name q \<noteq> nm) \<longrightarrow>
            until_stream_is_ready_within n active nm (Some th) w = Pending (waiting n w))"
proof -
  have rd: "ready nm (progressions_arg (Some th)) snapshot \<longleftrightarrow> (\<exists>q\<in>set snapshot. name q = nm)"
    for snapshot :: "'a query list"
    using ready_nonpositive [OF assms] by (simp add: progressions_arg_def)
  have "until_stream_is_ready active nm (Some th) w = Some w' \<longleftrightarrow>
            (\<exists>k. (\<exists>q\<in>set (active (polls w + k)). name q = nm) \<and>
                 (\<forall>j<k. \<forall>q\<in>set (active (polls w + j)). name q \<noteq> nm) \<and>
                 w' = returned nm k w)"
    unfolding until_Some_iff rd by simp
  moreover have "until_stream_is_ready_within n active nm (Some th) w = Pending (waiting n w)"
    if "\<forall>j\<le>n. \<forall>q\<in>set (active (polls w + j)). name q \<noteq> nm"
    by (rule until_within_pending) (use that in \<open>simp add: rd\<close>)
  ultimately show ?thesis by blast
qed

text \<open>The job appears at the third read, without any report, and the call returns there.\<close>

theorem nonpositive_threshold_waits_for_presence_witness:
  "(0::int) \<le> 0 \<and>
   until_stream_is_ready late_start ''job-A'' (Some 0) fresh =
     Some \<lparr>polls = 3,
           trace = [Poll, Sleep 5, Poll, Sleep 5, Poll,
                    Print ''The stream job-A is active and ready.'']\<rparr> \<and>
   until_stream_is_ready_within 1 late_start ''job-A'' (Some 0) fresh =
     Pending \<lparr>polls = 2, trace = [Poll, Sleep 5, Poll]\<rparr>"
proof -
  have z: "(0::int) \<le> 0" by simp
  note inst = nonpositive_threshold_waits_for_presence
    [OF z, where active = late_start and nm = "''job-A''" and w = fresh and n = 1
       and w' = "returned ''job-A'' 2 fresh"]
  have "until_stream_is_ready late_start ''job-A'' (Some 0) fresh =
      Some (returned ''job-A'' 2 fresh)"
    unfolding inst [THEN conjunct1]
    by (intro exI [of _ 2]) (simp add: late_start_def fresh_def)
  moreover have "\<forall>j\<le>1. \<forall>q\<in>set (late_start (polls fresh + j)). name q \<noteq> ''job-A''"
    by (simp add: late_start_def fresh_def)
  from inst [THEN conjunct2, THEN mp, OF this]
  have "until_stream_is_ready_within 1 late_start ''job-A'' (Some 0) fresh =
      Pending (waiting 1 fresh)" .
  ultimately show ?thesis
    by (simp add: returned_def waiting_def fresh_def numeral_2_eq_2)
qed

end
